theory Spec2Isabelle
  imports Main "HOL-Library.Sublist" "HOL-Library.Code_Target_Nat"
begin

section \<open>JavaScript values and strings\<close>

text \<open>
  A JavaScript string is a sequence of UTF-16 code units. A code unit is modelled by its
  number, so that the bullet U+2022 and the Unicode white space of \<^verbatim>\<open>\s\<close> and
  \<^verbatim>\<open>trim()\<close> are part of the model. \<open>U\<close> turns an ASCII literal into such a string.
\<close>

type_synonym jschar = nat
type_synonym jsstring = "jschar list"

definition U :: "string \<Rightarrow> jsstring" where
  "U s = map of_char s"

text \<open>
  The arguments of \<^verbatim>\<open>extractActionItems\<close> and \<^verbatim>\<open>parseDueDate\<close> are
  checked with \<^verbatim>\<open>!text || typeof text !== "string"\<close>, so the model takes any
  JavaScript value.
\<close>

datatype jsvalue =
    JSUndefined
  | JSNull
  | JSBoolean bool
  | JSNumber int
  | JSString jsstring
  | JSObject

fun falsy :: "jsvalue \<Rightarrow> bool" where
  "falsy JSUndefined = True"
| "falsy JSNull = True"
| "falsy (JSBoolean b) = (\<not> b)"
| "falsy (JSNumber n) = (n = 0)"
| "falsy (JSString s) = (s = [])"
| "falsy JSObject = False"

fun typeof_string :: "jsvalue \<Rightarrow> bool" where
  "typeof_string (JSString s) = True"
| "typeof_string v = False"

text \<open>
  White space as \<^verbatim>\<open>\s\<close> and \<^verbatim>\<open>String.prototype.trim\<close> see it: TAB, LF, VT, FF, CR,
  SPACE, NBSP, U+1680, U+2000 to U+200A, U+2028, U+2029, U+202F, U+205F, U+3000, U+FEFF.
\<close>

definition isSpace :: "jschar \<Rightarrow> bool" where
  "isSpace c = (c \<in> set [9, 10, 11, 12, 13, 32, 160, 5760, 8232, 8233, 8239, 8287, 12288, 65279]
                \<or> (8192 \<le> c \<and> c \<le> 8202))"

definition isDigit :: "jschar \<Rightarrow> bool" where
  "isDigit c = (48 \<le> c \<and> c \<le> 57)"

text \<open>A word character of \<^verbatim>\<open>\b\<close>: \<^verbatim>\<open>[A-Za-z0-9_]\<close>.\<close>

definition isWordChar :: "jschar \<Rightarrow> bool" where
  "isWordChar c = ((65 \<le> c \<and> c \<le> 90) \<or> (97 \<le> c \<and> c \<le> 122) \<or> isDigit c \<or> c = 95)"

text \<open>The bullet characters of \<^verbatim>\<open>[-*\<bullet>]\<close>: hyphen, asterisk, U+2022.\<close>

definition isBulletChar :: "jschar \<Rightarrow> bool" where
  "isBulletChar c = (c = 45 \<or> c = 42 \<or> c = 8226)"

text \<open>
  The canonical form of a code unit under the \<^verbatim>\<open>i\<close> flag (without \<^verbatim>\<open>u\<close>): the
  upper case of an ASCII letter. A code unit outside ASCII is never canonicalised to an
  ASCII one, and every pattern of this program is ASCII, so leaving the other code units
  as they are gives the same matches.
\<close>

definition canon :: "jschar \<Rightarrow> jschar" where
  "canon c = (if 97 \<le> c \<and> c \<le> 122 then c - 32 else c)"

definition trim :: "jsstring \<Rightarrow> jsstring" where
  "trim s = rev (dropWhile isSpace (rev (dropWhile isSpace s)))"

text \<open>\<^verbatim>\<open>s.includes(sub)\<close>.\<close>

fun js_includes :: "jsstring \<Rightarrow> jsstring \<Rightarrow> bool" where
  "js_includes [] sub = (sub = [])"
| "js_includes (c # cs) sub = (prefix sub (c # cs) \<or> js_includes cs sub)"

text \<open>A literal of a pattern with the \<^verbatim>\<open>i\<close> flag, matched at the start of \<open>s\<close>.\<close>

fun ci_prefix :: "jsstring \<Rightarrow> jsstring \<Rightarrow> bool" where
  "ci_prefix [] s = True"
| "ci_prefix (p # ps) [] = False"
| "ci_prefix (p # ps) (c # cs) = (canon p = canon c \<and> ci_prefix ps cs)"

text \<open>The same literal, matched anywhere in \<open>s\<close>.\<close>

fun ci_includes :: "jsstring \<Rightarrow> jsstring \<Rightarrow> bool" where
  "ci_includes [] pat = ci_prefix pat []"
| "ci_includes (c # cs) pat = (ci_prefix pat (c # cs) \<or> ci_includes cs pat)"

text \<open>\<^verbatim>\<open>String(n)\<close> for a natural number and for an integer.\<close>

fun show_nat :: "nat \<Rightarrow> jsstring" where
  "show_nat n = (if n < 10 then [48 + n] else show_nat (n div 10) @ [48 + n mod 10])"

declare show_nat.simps [simp del]

definition show_int :: "int \<Rightarrow> jsstring" where
  "show_int k = (if k < 0 then 45 # show_nat (nat (- k)) else show_nat (nat k))"

text \<open>\<^verbatim>\<open>s.padStart(2, "0")\<close>.\<close>

definition padStart2 :: "jsstring \<Rightarrow> jsstring" where
  "padStart2 s = replicate (2 - length s) 48 @ s"

section \<open>Priority classifier\<close>

text \<open>
  \<^verbatim>\<open>/\b(w1|w2|...)\b/i.test(line)\<close>. The scan carries whether the code unit before the
  current position is a word character; \<open>atBoundary\<close> is \<^verbatim>\<open>\b\<close> at the current
  position.
\<close>

definition atBoundary :: "bool \<Rightarrow> jsstring \<Rightarrow> bool" where
  "atBoundary prevWord rest = (prevWord \<noteq> (rest \<noteq> [] \<and> isWordChar (hd rest)))"

definition matchWordHere :: "jsstring list \<Rightarrow> bool \<Rightarrow> jsstring \<Rightarrow> bool" where
  "matchWordHere alts prevWord rest =
     (atBoundary prevWord rest \<and>
      list_ex (\<lambda>w. ci_prefix w rest \<and>
                   atBoundary (if w = [] then prevWord
                               else isWordChar (last (take (length w) rest)))
                              (drop (length w) rest)) alts)"

fun testWordsFrom :: "jsstring list \<Rightarrow> bool \<Rightarrow> jsstring \<Rightarrow> bool" where
  "testWordsFrom alts prevWord [] = matchWordHere alts prevWord []"
| "testWordsFrom alts prevWord (c # cs) =
     (matchWordHere alts prevWord (c # cs) \<or> testWordsFrom alts (isWordChar c) cs)"

definition testWords :: "jsstring list \<Rightarrow> jsstring \<Rightarrow> bool" where
  "testWords alts line = testWordsFrom alts False line"

definition URGENT_PATTERN :: "jsstring list" where
  "URGENT_PATTERN = map U [''urgent'', ''asap'', ''as soon as possible'', ''blocker'',
                           ''critical'', ''priority 1'', ''p1'']"

definition IMPORTANT_PATTERN :: "jsstring list" where
  "IMPORTANT_PATTERN = map U [''important'', ''soon'', ''priority 2'', ''p2'']"

definition inferPriority :: "jsstring \<Rightarrow> nat" where
  "inferPriority line =
     (if testWords URGENT_PATTERN line then 1
      else if testWords IMPORTANT_PATTERN line then 2
      else 4)"

section \<open>Due date parsing\<close>

text \<open>
  A valid \<^verbatim>\<open>Date\<close> as its local-time getters read it. \<^verbatim>\<open>getMonth\<close> counts from
  0. Both \<^verbatim>\<open>new Date()\<close> and the \<^verbatim>\<open>date()\<close> of a parsing result are valid dates.
\<close>

record jsDate =
  getFullYear :: int
  getMonth :: nat
  getDate :: nat
  getHours :: nat
  getMinutes :: nat
  getSeconds :: nat
  getMilliseconds :: nat

text \<open>
  \<^verbatim>\<open>chrono.parse(text, ref, { forwardDate: true })\<close> is the external date parser: it
  is a parameter of the model, giving the \<^verbatim>\<open>date()\<close> of each result in order.
\<close>

type_synonym chrono = "jsstring \<Rightarrow> jsDate \<Rightarrow> jsDate list"

definition toDateString :: "jsDate \<Rightarrow> jsstring" where
  "toDateString d =
     (let y = getFullYear d;
          m = padStart2 (show_nat (getMonth d + 1));
          day = padStart2 (show_nat (getDate d))
      in show_int y @ [45] @ m @ [45] @ day)"

text \<open>\<^verbatim>\<open>/eod|end of day|e\.o\.d/i.test(s)\<close>.\<close>

definition testEod :: "jsstring \<Rightarrow> bool" where
  "testEod s = (ci_includes s (U ''eod'') \<or> ci_includes s (U ''end of day'')
                \<or> ci_includes s (U ''e.o.d''))"

text \<open>
  \<open>ref\<close> is the value of \<^verbatim>\<open>new Date()\<close> in this call: the reading of the system
  clock.
\<close>

definition parseDueDate :: "chrono \<Rightarrow> jsDate \<Rightarrow> jsvalue \<Rightarrow> jsstring option" where
  "parseDueDate chrono ref text =
     (if falsy text \<or> \<not> typeof_string text then None
      else case text of
        JSString s \<Rightarrow>
          (let trimmed = trim s in
           if trimmed = [] then None
           else (case chrono trimmed ref of
                   [] \<Rightarrow> if testEod trimmed then Some (toDateString ref) else None
                 | first # others \<Rightarrow> Some (toDateString first)))
      | _ \<Rightarrow> None)"

section \<open>Action item extraction\<close>

record ExtractedActionItem =
  content :: jsstring
  description :: jsstring
  dueDate :: "jsstring option"
  priority :: nat
  subtasks :: "jsstring list"

text \<open>
  \<^verbatim>\<open>text.split(/\r?\n/)\<close>: a separator is a line feed, with the carriage return
  before it when there is one.
\<close>

fun split_lines :: "jsstring \<Rightarrow> jsstring list" where
  "split_lines [] = [[]]"
| "split_lines (c # cs) =
     (if c = 13 \<and> cs \<noteq> [] \<and> hd cs = 10 then [] # split_lines (tl cs)
      else if c = 10 then [] # split_lines cs
      else (case split_lines cs of
              [] \<Rightarrow> [[c]]
            | l # ls \<Rightarrow> (c # l) # ls))"

text \<open>\<^verbatim>\<open>s.replace(/^[-*\<bullet>]\s*/, "")\<close>.\<close>

definition stripBullet :: "jsstring \<Rightarrow> jsstring" where
  "stripBullet s =
     (case s of
        [] \<Rightarrow> []
      | c # cs \<Rightarrow> if isBulletChar c then dropWhile isSpace cs else s)"

text \<open>
  \<^verbatim>\<open>/^\d+[.)]/\<close> at the start of \<open>s\<close>: what follows the match, if it matches. Code
  unit 46 is the full stop, 41 the closing parenthesis.
\<close>

definition afterNumber :: "jsstring \<Rightarrow> jsstring option" where
  "afterNumber s =
     (let r = dropWhile isDigit s in
      if takeWhile isDigit s \<noteq> [] \<and> r \<noteq> [] \<and> (hd r = 46 \<or> hd r = 41)
      then Some (tl r) else None)"

text \<open>\<^verbatim>\<open>s.replace(/^\d+[.)]\s*/, "")\<close>.\<close>

definition stripNumber :: "jsstring \<Rightarrow> jsstring" where
  "stripNumber s = (case afterNumber s of None \<Rightarrow> s | Some r \<Rightarrow> dropWhile isSpace r)"

text \<open>\<^verbatim>\<open>/^[-*\<bullet>]\s+/.test(s)\<close>.\<close>

definition testBulletSpace :: "jsstring \<Rightarrow> bool" where
  "testBulletSpace s =
     (case s of
        c # d # ds \<Rightarrow> isBulletChar c \<and> isSpace d
      | _ \<Rightarrow> False)"

text \<open>\<^verbatim>\<open>/^\d+[.)]\s+/.test(s)\<close>.\<close>

definition testNumberSpace :: "jsstring \<Rightarrow> bool" where
  "testNumberSpace s =
     (case afterNumber s of
        None \<Rightarrow> False
      | Some r \<Rightarrow> r \<noteq> [] \<and> isSpace (hd r))"

text \<open>\<^verbatim>\<open>/^[-*\<bullet>]\s*/.test(s)\<close>.\<close>

definition testBulletStart :: "jsstring \<Rightarrow> bool" where
  "testBulletStart s = (s \<noteq> [] \<and> isBulletChar (hd s))"

text \<open>
  \<^verbatim>\<open>/^\[[\sx]\]/i\<close> at the start of \<open>s\<close>: what follows the match, if it matches.
  Code units 91 and 93 are the square brackets, 120 and 88 the letter x.
\<close>

definition afterBracket :: "jsstring \<Rightarrow> jsstring option" where
  "afterBracket s =
     (case s of
        a # b # c # r \<Rightarrow>
          if a = 91 \<and> (isSpace b \<or> b = 120 \<or> b = 88) \<and> c = 93 then Some r else None
      | _ \<Rightarrow> None)"

text \<open>\<^verbatim>\<open>/^\[[\sx]\]\s+/i.test(s)\<close>.\<close>

definition testBracket :: "jsstring \<Rightarrow> bool" where
  "testBracket s =
     (case afterBracket s of
        None \<Rightarrow> False
      | Some r \<Rightarrow> r \<noteq> [] \<and> isSpace (hd r))"

text \<open>\<^verbatim>\<open>s.replace(/^\[[\sx]\]\s*/i, "")\<close>.\<close>

definition stripBracket :: "jsstring \<Rightarrow> jsstring" where
  "stripBracket s = (case afterBracket s of None \<Rightarrow> s | Some r \<Rightarrow> dropWhile isSpace r)"

text \<open>
  \<^verbatim>\<open>/^(action|todo|follow-up|follow up|next step|deliverable):\s*/i.exec(s)\<close>: the
  matched text (element 0 of the result), or nothing. Code unit 58 is the colon.
\<close>

definition ACTION_LABELS :: "jsstring list" where
  "ACTION_LABELS = map U [''action'', ''todo'', ''follow-up'', ''follow up'', ''next step'',
                          ''deliverable'']"

definition execActionPrefix :: "jsstring \<Rightarrow> jsstring option" where
  "execActionPrefix s =
     (case find (\<lambda>a. ci_prefix (a @ [58]) s) ACTION_LABELS of
        None \<Rightarrow> None
      | Some a \<Rightarrow> Some (take (length a + 1) s @ takeWhile isSpace (drop (length a + 1) s)))"

text \<open>\<^verbatim>\<open>/^#|\*\*/.test(s)\<close>: a leading hash, or two asterisks anywhere.\<close>

definition testHashOrBold :: "jsstring \<Rightarrow> bool" where
  "testHashOrBold s = ((s \<noteq> [] \<and> hd s = 35) \<or> js_includes s [42, 42])"

text \<open>\<^verbatim>\<open>/^#{1,3}\s/.test(s)\<close>.\<close>

definition testHeading :: "jsstring \<Rightarrow> bool" where
  "testHeading s =
     (let n = length (takeWhile (\<lambda>c. c = 35) s) in
      1 \<le> n \<and> n \<le> 3 \<and> n < length s \<and> isSpace (s ! n))"

definition restOfLine :: "jsstring \<Rightarrow> jsstring" where
  "restOfLine line = stripNumber (stripBullet line)"

definition isAction :: "jsstring \<Rightarrow> bool" where
  "isAction line =
     (let actionPrefix = execActionPrefix (restOfLine line);
          bullet = (testBulletSpace line \<or> testNumberSpace line);
          bracket = testBracket line
      in (case actionPrefix of None \<Rightarrow> False | Some m \<Rightarrow> length m > 0)
         \<or> bullet \<or> bracket \<or> (testBulletStart line \<and> length line > 3))"

text \<open>The \<^verbatim>\<open>content\<close> of an action line, before the length check.\<close>

definition lineContent :: "jsstring \<Rightarrow> jsstring" where
  "lineContent line =
     (let rest = restOfLine line;
          c1 = (case execActionPrefix rest of
                  None \<Rightarrow> rest
                | Some m \<Rightarrow> trim (drop (length m) rest))
      in trim (stripBracket c1))"

text \<open>
  The inner loop, which collects continuation lines from index \<open>i\<close> on; it returns the
  index where it stops, the subtasks and the description. Code unit 10 is the line feed.
\<close>

function collect ::
  "jsstring list \<Rightarrow> nat \<Rightarrow> jsstring list \<Rightarrow> jsstring \<Rightarrow> nat \<times> jsstring list \<times> jsstring" where
  "collect lines i subs descr =
     (if i < length lines then
        (let next = lines ! i;
             nextTrim = dropWhile isSpace next;
             nextBullet = (testBulletSpace nextTrim \<or> testNumberSpace nextTrim);
             nextIndent = (length next - length nextTrim > 0)
         in if nextBullet \<and> nextIndent then
              collect lines (i + 1)
                (subs @ [trim (stripNumber (stripBullet nextTrim))]) (descr @ [10] @ next)
            else if nextIndent \<and> length nextTrim > 0 \<and> \<not> testHashOrBold nextTrim then
              collect lines (i + 1) (subs @ [nextTrim]) (descr @ [10] @ next)
            else if next = [] \<or> testHeading next then (i, subs, descr)
            else (i, subs, descr))
      else (i, subs, descr))"
  by pat_completeness auto
termination
  by (relation "measure (\<lambda>(lines, i, subs, descr). length lines - i)") auto

declare collect.simps [simp del]

lemma collect_index_ge: "i \<le> fst (collect lines i subs descr)"
proof (induction lines i subs descr rule: collect.induct)
  case (1 lines i subs descr)
  show ?case
  proof (cases "i < length lines")
    case False
    then show ?thesis by (subst collect.simps) simp
  next
    case True
    define nxt where "nxt = lines ! i"
    define nextTrim where "nextTrim = dropWhile isSpace nxt"
    define nextBullet where "nextBullet = (testBulletSpace nextTrim \<or> testNumberSpace nextTrim)"
    define nextIndent where "nextIndent = (length nxt - length nextTrim > 0)"
    note d = nxt_def nextTrim_def nextBullet_def nextIndent_def
    have ih1: "nextBullet \<and> nextIndent \<Longrightarrow>
        i + 1 \<le> fst (collect lines (i + 1)
          (subs @ [trim (stripNumber (stripBullet nextTrim))]) (descr @ [10] @ nxt))"
      using "1.IH"(1)[OF True d] by simp
    have ih2: "\<not> (nextBullet \<and> nextIndent) \<Longrightarrow>
        nextIndent \<and> length nextTrim > 0 \<and> \<not> testHashOrBold nextTrim \<Longrightarrow>
        i + 1 \<le> fst (collect lines (i + 1) (subs @ [nextTrim]) (descr @ [10] @ nxt))"
      using "1.IH"(2)[OF True d] by simp
    have eq: "collect lines i subs descr =
        (if nextBullet \<and> nextIndent then
           collect lines (i + 1)
             (subs @ [trim (stripNumber (stripBullet nextTrim))]) (descr @ [10] @ nxt)
         else if nextIndent \<and> length nextTrim > 0 \<and> \<not> testHashOrBold nextTrim then
           collect lines (i + 1) (subs @ [nextTrim]) (descr @ [10] @ nxt)
         else (i, subs, descr))"
      unfolding d using True by (subst collect.simps) (simp only: Let_def if_True if_cancel)
    show ?thesis
    proof (cases "nextBullet \<and> nextIndent")
      case a: True
      have "collect lines i subs descr = collect lines (i + 1)
             (subs @ [trim (stripNumber (stripBullet nextTrim))]) (descr @ [10] @ nxt)"
        using eq a by simp
      then have "fst (collect lines i subs descr) = fst (collect lines (i + 1)
             (subs @ [trim (stripNumber (stripBullet nextTrim))]) (descr @ [10] @ nxt))"
        by (rule arg_cong)
      with ih1[OF a] show ?thesis by linarith
    next
      case b: False
      show ?thesis
      proof (cases "nextIndent \<and> length nextTrim > 0 \<and> \<not> testHashOrBold nextTrim")
        case c: True
        have "collect lines i subs descr =
                collect lines (i + 1) (subs @ [nextTrim]) (descr @ [10] @ nxt)"
          using eq b c by simp
        then have "fst (collect lines i subs descr) =
                fst (collect lines (i + 1) (subs @ [nextTrim]) (descr @ [10] @ nxt))"
          by (rule arg_cong)
        with ih2[OF b c] show ?thesis by linarith
      next
        case c: False
        have "collect lines i subs descr = (i, subs, descr)"
          using eq b c by auto
        then show ?thesis by simp
      qed
    qed
  qed
qed

text \<open>
  The date of an item: \<^verbatim>\<open>parseDueDate(content) ?? parseDueDate(line) ?? null\<close>. Each
  call of \<^verbatim>\<open>parseDueDate\<close> on a non-blank string reads the clock once; \<open>clock t\<close> is
  the reading number \<open>t\<close> of one extraction, and the result carries the number of
  the next reading.
\<close>

definition itemDueDate ::
  "chrono \<Rightarrow> (nat \<Rightarrow> jsDate) \<Rightarrow> nat \<Rightarrow> jsstring \<Rightarrow> jsstring \<Rightarrow> jsstring option \<times> nat" where
  "itemDueDate chrono clock t cont line =
     (case parseDueDate chrono (clock t) (JSString cont) of
        Some d \<Rightarrow> (Some d, t + 1)
      | None \<Rightarrow> (parseDueDate chrono (clock (t + 1)) (JSString line), t + 2))"

text \<open>The outer loop over \<open>lines\<close>, from index \<open>i\<close>, with the items pushed so far.\<close>

function extract_loop ::
  "chrono \<Rightarrow> (nat \<Rightarrow> jsDate) \<Rightarrow> jsstring list \<Rightarrow> nat \<Rightarrow> ExtractedActionItem list \<Rightarrow> nat
     \<Rightarrow> ExtractedActionItem list" where
  "extract_loop chrono clock lines i items t =
     (if i < length lines then
        (let line = lines ! i in
         if isAction line then
           (let cont = lineContent line in
            if length cont < 2 then extract_loop chrono clock lines (i + 1) items t
            else
              (let due = itemDueDate chrono clock t cont line;
                   prio = inferPriority line;
                   coll = collect lines (i + 1) [] line
               in extract_loop chrono clock lines (fst coll)
                    (items @ [\<lparr> content = take 500 cont,
                                description = take 2000 (snd (snd coll)),
                                dueDate = fst due,
                                priority = prio,
                                subtasks = take 20 (fst (snd coll)) \<rparr>])
                    (snd due)))
         else extract_loop chrono clock lines (i + 1) items t)
      else items)"
  by pat_completeness auto
termination
  apply (relation "measure (\<lambda>(chrono, clock, lines, i, items, t). length lines - i)")
     apply simp_all
  apply (metis Suc_le_lessD collect_index_ge diff_less_mono2)
  done

declare extract_loop.simps [simp del]

text \<open>\<^verbatim>\<open>text.split(/\r?\n/).map((l) => l.trim()).filter(Boolean)\<close>.\<close>

definition noteLines :: "jsstring \<Rightarrow> jsstring list" where
  "noteLines s = filter (\<lambda>l. l \<noteq> []) (map trim (split_lines s))"

definition extractActionItems ::
  "chrono \<Rightarrow> (nat \<Rightarrow> jsDate) \<Rightarrow> jsvalue \<Rightarrow> ExtractedActionItem list" where
  "extractActionItems chrono clock text =
     (if falsy text \<or> \<not> typeof_string text then []
      else case text of
        JSString s \<Rightarrow> extract_loop chrono clock (noteLines s) 0 [] 0
      | _ \<Rightarrow> [])"

section \<open>Task routing\<close>

text \<open>
  The types of \<^verbatim>\<open>todoist/types.ts\<close>. Of \<^verbatim>\<open>TodoistProject\<close> the router reads the id and
  the name, of \<^verbatim>\<open>TodoistSection\<close> the id and the name; the fields that it never reads
  (\<^verbatim>\<open>order\<close> and the optional fields of a project) are left out. A
  \<^verbatim>\<open>ProjectWithSections\<close> is a project with the list of its sections, and a
  \<^verbatim>\<open>RouteResult\<close> has a project id and a section id or \<^verbatim>\<open>null\<close>.
\<close>

record TodoistSection =
  section_id :: jsstring
  section_name :: jsstring
  section_projectId :: jsstring

record ProjectWithSections =
  project_id :: jsstring
  project_name :: jsstring
  sections :: "TodoistSection list"

record RouteResult =
  projectId :: jsstring
  sectionId :: "jsstring option"

text \<open>The running best candidate of \<^verbatim>\<open>routeTask\<close>.\<close>

record Best =
  best_projectId :: jsstring
  best_sectionId :: "jsstring option"
  score :: nat

text \<open>
  \<^verbatim>\<open>String.prototype.toLowerCase\<close> is the language's own Unicode lower-casing. The
  router takes it as the parameter \<open>lc\<close>, so that what is proved of the router holds
  for every lower-casing; \<open>asciiLower\<close> is what it does on ASCII text, and evaluates
  the examples.
\<close>

definition asciiLower :: "jsstring \<Rightarrow> jsstring" where
  "asciiLower s = map (\<lambda>c. if 65 \<le> c \<and> c \<le> 90 then c + 32 else c) s"

text \<open>
  \<^verbatim>\<open>s.split(/\s+/)\<close>: the pieces between maximal runs of white space, the empty
  piece before a leading run and after a trailing run included.
\<close>

function split_ws :: "jsstring \<Rightarrow> jsstring list" where
  "split_ws [] = [[]]"
| "split_ws (c # cs) =
     (if isSpace c then [] # split_ws (dropWhile isSpace cs)
      else (case split_ws cs of
              [] \<Rightarrow> [[c]]
            | w # ws \<Rightarrow> (c # w) # ws))"
  by pat_completeness auto
termination
  by (relation "measure length") (auto simp: le_imp_less_Suc length_dropWhile_le)

text \<open>The truth value of a \<^verbatim>\<open>string | null\<close>: neither \<^verbatim>\<open>null\<close> nor empty.\<close>

definition truthy :: "jsstring option \<Rightarrow> bool" where
  "truthy v = (case v of None \<Rightarrow> False | Some s \<Rightarrow> s \<noteq> [])"

fun matchSection ::
  "(jsstring \<Rightarrow> jsstring) \<Rightarrow> jsstring \<Rightarrow> jsstring list \<Rightarrow> TodoistSection list
     \<Rightarrow> jsstring option" where
  "matchSection lc normalizedContent words [] = None"
| "matchSection lc normalizedContent words (section # rest) =
     (let nameNorm = lc (section_name section) in
      if js_includes normalizedContent nameNorm then Some (section_id section)
      else if list_ex (\<lambda>w. length w \<ge> 2 \<and> js_includes nameNorm w) words
      then Some (section_id section)
      else matchSection lc normalizedContent words rest)"

text \<open>Stage 1: the project that the hint names, when there is a hint and such a project.\<close>

definition hintStage ::
  "(jsstring \<Rightarrow> jsstring) \<Rightarrow> jsstring \<Rightarrow> jsstring list \<Rightarrow> ProjectWithSections list
     \<Rightarrow> jsstring option \<Rightarrow> RouteResult option" where
  "hintStage lc normalizedContent words projects hint =
     (case hint of
        None \<Rightarrow> None
      | Some h \<Rightarrow>
          if h \<noteq> [] \<and> trim h \<noteq> [] then
            (let hintNorm = lc (trim h) in
             case find (\<lambda>p. js_includes (lc (project_name p)) hintNorm
                             \<or> js_includes hintNorm (lc (project_name p))) projects of
               None \<Rightarrow> None
             | Some byHint \<Rightarrow>
                 Some \<lparr> projectId = project_id byHint,
                        sectionId = matchSection lc normalizedContent words (sections byHint) \<rparr>)
          else None)"

text \<open>Stage 2: one turn of the loop over the projects.\<close>

definition keywordStep ::
  "(jsstring \<Rightarrow> jsstring) \<Rightarrow> jsstring \<Rightarrow> jsstring list \<Rightarrow> Best \<Rightarrow> ProjectWithSections
     \<Rightarrow> Best" where
  "keywordStep lc normalizedContent words best project =
     (let projectNameNorm = lc (project_name project);
          sc = foldl (\<lambda>sc word.
                  if js_includes projectNameNorm word
                     \<or> (length word \<ge> 3 \<and> js_includes projectNameNorm word)
                  then sc + 1 else sc) 0 words;
          section = matchSection lc normalizedContent words (sections project);
          sectionBonus = (if truthy section then 2 else 0);
          total = sc + sectionBonus
      in if total > score best
         then \<lparr> best_projectId = project_id project, best_sectionId = section, score = total \<rparr>
         else best)"

definition patternProject :: "(jsstring list \<times> jsstring) list" where
  "patternProject =
     [(map U [''review'', ''pr'', ''merge'', ''code'', ''dev'', ''engineering'', ''sprint''],
       U ''eng''),
      (map U [''review'', ''pr'', ''merge'', ''code'', ''dev''], U ''dev''),
      (map U [''invoice'', ''payment'', ''budget'', ''finance'', ''expense''], U ''finan''),
      (map U [''follow up'', ''follow-up'', ''contact'', ''crm'', ''client'', ''customer''],
       U ''crm''),
      (map U [''follow up'', ''follow-up'', ''contact'', ''client''], U ''work'')]"

text \<open>Stage 3: one turn of the loop over the table of patterns.\<close>

definition patternStep ::
  "(jsstring \<Rightarrow> jsstring) \<Rightarrow> jsstring \<Rightarrow> jsstring list \<Rightarrow> ProjectWithSections list \<Rightarrow> Best
     \<Rightarrow> jsstring list \<times> jsstring \<Rightarrow> Best" where
  "patternStep lc normalizedContent words projects best rule =
     (let keywords = fst rule; projectSubstr = snd rule;
          contentHas = list_ex (\<lambda>k. js_includes normalizedContent k) keywords
      in if \<not> contentHas then best
         else (case find (\<lambda>p. js_includes (lc (project_name p)) projectSubstr) projects of
                 None \<Rightarrow> best
               | Some project \<Rightarrow>
                   (let sid = matchSection lc normalizedContent words (sections project);
                        sc = 2 + (if truthy sid then 1 else 0)
                    in if sc > score best
                       then \<lparr> best_projectId = project_id project, best_sectionId = sid,
                              score = sc \<rparr>
                       else best)))"

definition initialBest :: Best where
  "initialBest = \<lparr> best_projectId = [], best_sectionId = None, score = 0 \<rparr>"

definition keywordStage ::
  "(jsstring \<Rightarrow> jsstring) \<Rightarrow> jsstring \<Rightarrow> jsstring list \<Rightarrow> ProjectWithSections list \<Rightarrow> Best" where
  "keywordStage lc normalizedContent words projects =
     foldl (keywordStep lc normalizedContent words) initialBest projects"

definition patternStage ::
  "(jsstring \<Rightarrow> jsstring) \<Rightarrow> jsstring \<Rightarrow> jsstring list \<Rightarrow> ProjectWithSections list \<Rightarrow> Best
     \<Rightarrow> Best" where
  "patternStage lc normalizedContent words projects best =
     foldl (patternStep lc normalizedContent words projects) best patternProject"

text \<open>Stage 4: the Inbox by name, else the first project, else no project.\<close>

definition fallback :: "(jsstring \<Rightarrow> jsstring) \<Rightarrow> ProjectWithSections list \<Rightarrow> RouteResult" where
  "fallback lc projects =
     (case find (\<lambda>p. lc (project_name p) = U ''inbox''
                     \<or> js_includes (lc (project_name p)) (U ''inbox'')) projects of
        Some inbox \<Rightarrow> \<lparr> projectId = project_id inbox, sectionId = None \<rparr>
      | None \<Rightarrow>
          (case projects of
             p0 # ps \<Rightarrow> \<lparr> projectId = project_id p0, sectionId = None \<rparr>
           | [] \<Rightarrow> \<lparr> projectId = [], sectionId = None \<rparr>))"

definition routeTask ::
  "(jsstring \<Rightarrow> jsstring) \<Rightarrow> jsstring \<Rightarrow> ProjectWithSections list \<Rightarrow> jsstring option
     \<Rightarrow> RouteResult" where
  "routeTask lc taskContent projects hint =
     (let normalizedContent = trim (lc taskContent);
          words = filter (\<lambda>w. length w > 1) (split_ws normalizedContent)
      in case hintStage lc normalizedContent words projects hint of
           Some r \<Rightarrow> r
         | None \<Rightarrow>
             (let best = patternStage lc normalizedContent words projects
                           (keywordStage lc normalizedContent words projects)
              in if best_projectId best \<noteq> []
                 then \<lparr> projectId = best_projectId best, sectionId = best_sectionId best \<rparr>
                 else fallback lc projects))"

section \<open>Predicates of the specification\<close>

text \<open>
  The line contains the word or phrase \<open>w\<close>, in any letter case, as a whole word: an
  occurrence that no word character touches on either side.
\<close>

definition containsWord :: "jsstring \<Rightarrow> jsstring \<Rightarrow> bool" where
  "containsWord line w =
     (\<exists>pre mid suf. line = pre @ mid @ suf \<and> map canon mid = map canon w
        \<and> (pre = [] \<or> \<not> isWordChar (last pre))
        \<and> (suf = [] \<or> \<not> isWordChar (hd suf)))"

text \<open>The text contains \<open>m\<close> somewhere, in any letter case.\<close>

definition containsCI :: "jsstring \<Rightarrow> jsstring \<Rightarrow> bool" where
  "containsCI s m = (\<exists>pre mid suf. s = pre @ mid @ suf \<and> map canon mid = map canon m)"

text \<open>The alternatives of both priority patterns begin and end with a word character.\<close>

definition wordy :: "jsstring \<Rightarrow> bool" where
  "wordy w = (w \<noteq> [] \<and> isWordChar (hd w) \<and> isWordChar (last w))"

text \<open>
  An occurrence of \<open>w\<close> in \<open>s\<close>, any letter case, with no word character next to it
  on either side; \<open>prev\<close> tells whether a word character stands before \<open>s\<close>.
\<close>

definition occursAfter :: "bool \<Rightarrow> jsstring \<Rightarrow> jsstring \<Rightarrow> bool" where
  "occursAfter prev s w =
     (\<exists>pre mid suf. s = pre @ mid @ suf \<and> map canon mid = map canon w
        \<and> (if pre = [] then \<not> prev else \<not> isWordChar (last pre))
        \<and> (suf = [] \<or> \<not> isWordChar (hd suf)))"

text \<open>A line from which the outer loop pushes an item.\<close>

definition emits :: "jsstring \<Rightarrow> bool" where
  "emits line = (isAction line \<and> 2 \<le> length (lineContent line))"

text \<open>
  What the outer loop pushes for a list of lines none of which starts with white space,
  reading the clock from reading number \<open>t\<close> on. It is proved equal to the loop below.
\<close>

fun itemsFrom :: "chrono \<Rightarrow> (nat \<Rightarrow> jsDate) \<Rightarrow> nat \<Rightarrow> jsstring list \<Rightarrow> ExtractedActionItem list" where
  "itemsFrom chrono clock t [] = []"
| "itemsFrom chrono clock t (line # rest) =
     (if emits line then
        \<lparr> content = take 500 (lineContent line),
          description = take 2000 line,
          dueDate = fst (itemDueDate chrono clock t (lineContent line) line),
          priority = inferPriority line,
          subtasks = [] \<rparr>
        # itemsFrom chrono clock (snd (itemDueDate chrono clock t (lineContent line) line)) rest
      else itemsFrom chrono clock t rest)"

text \<open>The fields of an item other than its due date, and their values for a line.\<close>

definition itemText :: "ExtractedActionItem \<Rightarrow> jsstring \<times> jsstring \<times> nat \<times> jsstring list" where
  "itemText it = (content it, description it, priority it, subtasks it)"

definition lineText :: "jsstring \<Rightarrow> jsstring \<times> jsstring \<times> nat \<times> jsstring list" where
  "lineText line = (take 500 (lineContent line), take 2000 line, inferPriority line, [])"

text \<open>
  The hint, trimmed, contains the name of the project or is contained in it, both in
  lower case. \<open>sublist xs ys\<close> says that \<open>xs\<close> is a contiguous part of \<open>ys\<close>.
\<close>

definition hintMatches :: "(jsstring \<Rightarrow> jsstring) \<Rightarrow> jsstring \<Rightarrow> ProjectWithSections \<Rightarrow> bool" where
  "hintMatches lc hint p =
     (sublist (lc (trim hint)) (lc (project_name p))
      \<or> sublist (lc (project_name p)) (lc (trim hint)))"

text \<open>
  The section matches the content: its lower-case name is part of the content, or a word
  of the content of two or more code units is part of its lower-case name.
\<close>

definition sectionMatches ::
  "(jsstring \<Rightarrow> jsstring) \<Rightarrow> jsstring \<Rightarrow> jsstring list \<Rightarrow> TodoistSection \<Rightarrow> bool" where
  "sectionMatches lc normalizedContent words section =
     (sublist (lc (section_name section)) normalizedContent
      \<or> (\<exists>w\<in>set words. 2 \<le> length w \<and> sublist w (lc (section_name section))))"

text \<open>The name of the project is, or contains, \<open>inbox\<close> in lower case.\<close>

definition inboxLike :: "(jsstring \<Rightarrow> jsstring) \<Rightarrow> ProjectWithSections \<Rightarrow> bool" where
  "inboxLike lc p =
     (lc (project_name p) = U ''inbox'' \<or> sublist (U ''inbox'') (lc (project_name p)))"

text \<open>The words of the content, as \<^verbatim>\<open>routeTask\<close> computes them.\<close>

definition contentWords :: "(jsstring \<Rightarrow> jsstring) \<Rightarrow> jsstring \<Rightarrow> jsstring list" where
  "contentWords lc taskContent = filter (\<lambda>w. length w > 1) (split_ws (trim (lc taskContent)))"

text \<open>
  No stage selects a project: the hint stage returns nothing, and the best candidate after
  the keyword stage and the pattern stage has no project id.
\<close>

definition noStageSelects ::
  "(jsstring \<Rightarrow> jsstring) \<Rightarrow> jsstring \<Rightarrow> ProjectWithSections list \<Rightarrow> jsstring option \<Rightarrow> bool" where
  "noStageSelects lc taskContent projects hint =
     (hintStage lc (trim (lc taskContent)) (contentWords lc taskContent) projects hint = None
      \<and> best_projectId
            (patternStage lc (trim (lc taskContent)) (contentWords lc taskContent) projects
               (keywordStage lc (trim (lc taskContent)) (contentWords lc taskContent) projects))
          = [])"

text \<open>
  The pair of a project id and a section id comes from the list: some project of the list
  has this id, and the section id, when there is one, is the id of one of its sections.
\<close>

definition fromProjects :: "ProjectWithSections list \<Rightarrow> jsstring \<Rightarrow> jsstring option \<Rightarrow> bool" where
  "fromProjects projects pid sid =
     (\<exists>p\<in>set projects. project_id p = pid
        \<and> (\<forall>x. sid = Some x \<longrightarrow> (\<exists>s\<in>set (sections p). section_id s = x)))"












section \<open>Sample inputs\<close>

text \<open>
  A date parser that finds nothing, a clock that stands still, three readings of the clock
  and the notes of the specification's example (code unit 10 is the line feed).
\<close>

definition noMatch :: chrono where
  "noMatch s ref = []"

definition clockAt :: "jsDate \<Rightarrow> nat \<Rightarrow> jsDate" where
  "clockAt d t = d"

definition june3 :: jsDate where
  "june3 = \<lparr> getFullYear = 2024, getMonth = 5, getDate = 3, getHours = 9, getMinutes = 30,
              getSeconds = 0, getMilliseconds = 0 \<rparr>"

definition june3evening :: jsDate where
  "june3evening = \<lparr> getFullYear = 2024, getMonth = 5, getDate = 3, getHours = 18,
                     getMinutes = 5, getSeconds = 0, getMilliseconds = 0 \<rparr>"

definition june4 :: jsDate where
  "june4 = \<lparr> getFullYear = 2024, getMonth = 5, getDate = 4, getHours = 9, getMinutes = 30,
              getSeconds = 0, getMilliseconds = 0 \<rparr>"

definition reviewNotes :: jsstring where
  "reviewNotes = U ''1. Review PR #42'' @ [10] @ U ''   - check tests'' @ [10]
                 @ U ''   - check docs''"

text \<open>The projects and contents of the routing examples.\<close>

definition engineering :: ProjectWithSections where
  "engineering = \<lparr> project_id = U ''p-eng'', project_name = U ''Engineering'',
      sections = [\<lparr> section_id = U ''s-review'', section_name = U ''Code Review'',
                    section_projectId = U ''p-eng'' \<rparr>] \<rparr>"

definition finance :: ProjectWithSections where
  "finance = \<lparr> project_id = U ''p-fin'', project_name = U ''Finance'', sections = [] \<rparr>"

definition inbox :: ProjectWithSections where
  "inbox = \<lparr> project_id = U ''p-inbox'', project_name = U ''Inbox'', sections = [] \<rparr>"


definition waterPlants :: jsstring where
  "waterPlants = U ''water the plants''"





section \<open>Facts about strings\<close>

lemma canon_eq_isWordChar: "canon a = canon b \<Longrightarrow> isWordChar a = isWordChar b"
  by (auto simp: canon_def isWordChar_def isDigit_def split: if_splits)

lemma canon_eq_isSpace: "canon a = canon b \<Longrightarrow> isSpace a = isSpace b"
  by (auto simp: canon_def isSpace_def split: if_splits)

lemma ci_prefix_iff:
  "ci_prefix w s \<longleftrightarrow> (\<exists>mid suf. s = mid @ suf \<and> map canon mid = map canon w)"
proof (induction w s rule: ci_prefix.induct)
  case (1 s)
  then show ?case by simp
next
  case (2 p ps)
  then show ?case by simp
next
  case (3 p ps c cs)
  show ?case
  proof
    assume "ci_prefix (p # ps) (c # cs)"
    then have pc: "canon p = canon c" and "ci_prefix ps cs" by simp_all
    with 3 obtain mid suf where "cs = mid @ suf" "map canon mid = map canon ps" by blast
    with pc have "c # cs = (c # mid) @ suf \<and> map canon (c # mid) = map canon (p # ps)" by simp
    then show "\<exists>mid suf. c # cs = mid @ suf \<and> map canon mid = map canon (p # ps)" by blast
  next
    assume "\<exists>mid suf. c # cs = mid @ suf \<and> map canon mid = map canon (p # ps)"
    then obtain mid suf where ms: "c # cs = mid @ suf" "map canon mid = map canon (p # ps)"
      by blast
    then obtain m mid' where mid: "mid = m # mid'" by (cases mid) auto
    with ms have "m = c" "cs = mid' @ suf" "canon m = canon p" "map canon mid' = map canon ps"
      by simp_all
    with 3 show "ci_prefix (p # ps) (c # cs)" by auto
  qed
qed

lemma canon_map_hd_last:
  assumes "map canon mid = map canon w" "w \<noteq> []"
  shows "mid \<noteq> []" "canon (hd mid) = canon (hd w)" "canon (last mid) = canon (last w)"
proof -
  show ne: "mid \<noteq> []" using assms by auto
  have "hd (map canon mid) = hd (map canon w)" using assms by simp
  then show "canon (hd mid) = canon (hd w)" using ne assms(2) by (simp add: hd_map)
  have "last (map canon mid) = last (map canon w)" using assms by simp
  then show "canon (last mid) = canon (last w)" using ne assms(2) by (simp add: last_map)
qed

lemma dropWhile_trim: "dropWhile isSpace (trim s) = trim s"
proof -
  define t where "t = dropWhile isSpace s"
  define u where "u = rev (dropWhile isSpace (rev t))"
  have tu: "t = u @ rev (takeWhile isSpace (rev t))"
  proof -
    have "t = rev (takeWhile isSpace (rev t) @ dropWhile isSpace (rev t))"
      by (simp only: takeWhile_dropWhile_id rev_rev_ident)
    also have "\<dots> = rev (dropWhile isSpace (rev t)) @ rev (takeWhile isSpace (rev t))"
      by (rule rev_append)
    finally show ?thesis by (simp only: u_def)
  qed
  have "dropWhile isSpace u = u"
  proof (cases u)
    case Nil
    then show ?thesis by simp
  next
    case (Cons x xs)
    with tu have "\<exists>r. t = x # r" by (metis append_Cons)
    then have "t \<noteq> []" "hd t = x" by auto
    then have "\<not> isSpace x" unfolding t_def using hd_dropWhile by blast
    with Cons show ?thesis by simp
  qed
  then show ?thesis by (simp add: trim_def u_def t_def)
qed

lemma trim_inside: "\<exists>a b. s = a @ trim s @ b"
proof -
  define t where "t = dropWhile isSpace s"
  have "t = rev (takeWhile isSpace (rev t) @ dropWhile isSpace (rev t))"
    by (simp only: takeWhile_dropWhile_id rev_rev_ident)
  also have "\<dots> = rev (dropWhile isSpace (rev t)) @ rev (takeWhile isSpace (rev t))"
    by (rule rev_append)
  finally have "t = trim s @ rev (takeWhile isSpace (rev t))"
    by (simp only: trim_def t_def)
  moreover have "s = takeWhile isSpace s @ t" by (simp add: t_def)
  ultimately show ?thesis by metis
qed

lemma dropWhile_keeps:
  "mid \<noteq> [] \<Longrightarrow> \<not> P (hd mid) \<Longrightarrow> dropWhile P (pre @ mid @ suf) = dropWhile P pre @ mid @ suf"
  by (cases mid) (simp_all add: dropWhile_append3)

lemma trim_keeps:
  assumes "mid \<noteq> []" "\<not> isSpace (hd mid)" "\<not> isSpace (last mid)"
  shows "\<exists>a b. trim (pre @ mid @ suf) = a @ mid @ b"
proof -
  have r: "rev mid \<noteq> []" "\<not> isSpace (hd (rev mid))"
    using assms by (simp_all add: hd_rev)
  have "dropWhile isSpace (pre @ mid @ suf) = dropWhile isSpace pre @ mid @ suf"
    using assms(1,2) by (rule dropWhile_keeps)
  then have "trim (pre @ mid @ suf)
      = rev (dropWhile isSpace (rev suf @ rev mid @ rev (dropWhile isSpace pre)))"
    by (simp add: trim_def)
  also have "\<dots> = rev (dropWhile isSpace (rev suf) @ rev mid @ rev (dropWhile isSpace pre))"
    using dropWhile_keeps[where mid="rev mid" and P=isSpace and pre="rev suf" and suf="rev (dropWhile isSpace pre)", OF r] by simp
  finally have "trim (pre @ mid @ suf)
      = dropWhile isSpace pre @ mid @ rev (dropWhile isSpace (rev suf))"
    by simp
  then show ?thesis by blast
qed

lemma trim_nonempty: "c \<noteq> [] \<Longrightarrow> \<not> isSpace (hd c) \<Longrightarrow> trim c \<noteq> []"
proof -
  assume c: "c \<noteq> []" "\<not> isSpace (hd c)"
  then have "dropWhile isSpace c = c" by (cases c) simp_all
  moreover have "dropWhile isSpace (rev c) \<noteq> []"
    using c by (auto intro: bexI[of _ "hd c"])
  ultimately show ?thesis by (simp add: trim_def)
qed

lemma hd_trim: "trim x \<noteq> [] \<Longrightarrow> \<not> isSpace (hd (trim x))"
  using hd_dropWhile[of isSpace "trim x"] by (simp add: dropWhile_trim)

lemma ci_includes_iff: "ci_includes s pat \<longleftrightarrow> containsCI s pat"
proof (induction s)
  case Nil
  show ?case by (auto simp: ci_prefix_iff containsCI_def)
next
  case (Cons c cs)
  have "containsCI (c # cs) pat \<longleftrightarrow> ci_prefix pat (c # cs) \<or> containsCI cs pat"
  proof
    assume "containsCI (c # cs) pat"
    then obtain pre mid suf where h: "c # cs = pre @ mid @ suf" "map canon mid = map canon pat"
      unfolding containsCI_def by blast
    show "ci_prefix pat (c # cs) \<or> containsCI cs pat"
    proof (cases pre)
      case Nil
      with h show ?thesis unfolding ci_prefix_iff by auto
    next
      case (Cons a pre')
      with h have "cs = pre' @ mid @ suf" by simp
      with h(2) show ?thesis unfolding containsCI_def by blast
    qed
  next
    assume "ci_prefix pat (c # cs) \<or> containsCI cs pat"
    then show "containsCI (c # cs) pat"
    proof
      assume "ci_prefix pat (c # cs)"
      then obtain mid suf where "c # cs = [] @ mid @ suf" "map canon mid = map canon pat"
        unfolding ci_prefix_iff by auto
      then show ?thesis unfolding containsCI_def by blast
    next
      assume "containsCI cs pat"
      then obtain pre mid suf where "cs = pre @ mid @ suf" "map canon mid = map canon pat"
        unfolding containsCI_def by blast
      then have "c # cs = (c # pre) @ mid @ suf" "map canon mid = map canon pat" by simp_all
      then show ?thesis unfolding containsCI_def by blast
    qed
  qed
  with Cons show ?case by simp
qed

lemma containsCI_trim:
  assumes "m \<noteq> []" "\<not> isSpace (hd m)" "\<not> isSpace (last m)"
  shows "containsCI (trim s) m \<longleftrightarrow> containsCI s m"
proof
  assume "containsCI (trim s) m"
  then obtain pre mid suf where h: "trim s = pre @ mid @ suf" "map canon mid = map canon m"
    unfolding containsCI_def by blast
  obtain a b where "s = a @ trim s @ b" using trim_inside by blast
  with h have "s = (a @ pre) @ mid @ (suf @ b)" by simp
  with h(2) show "containsCI s m" unfolding containsCI_def by blast
next
  assume "containsCI s m"
  then obtain pre mid suf where h: "s = pre @ mid @ suf" "map canon mid = map canon m"
    unfolding containsCI_def by blast
  have mid: "mid \<noteq> []" "canon (hd mid) = canon (hd m)" "canon (last mid) = canon (last m)"
    using canon_map_hd_last[OF h(2) assms(1)] by simp_all
  then have "\<not> isSpace (hd mid)" "\<not> isSpace (last mid)"
    using assms canon_eq_isSpace by blast+
  with mid(1) obtain a b where "trim (pre @ mid @ suf) = a @ mid @ b"
    using trim_keeps by blast
  with h show "containsCI (trim s) m" unfolding containsCI_def by blast
qed

section \<open>The priority classifier is a whole-word search\<close>

lemma word_here:
  assumes "wordy w"
  shows "(ci_prefix w s \<and> atBoundary prev s \<and>
          atBoundary (if w = [] then prev else isWordChar (last (take (length w) s)))
                     (drop (length w) s))
         \<longleftrightarrow> (\<not> prev \<and> (\<exists>mid suf. s = mid @ suf \<and> map canon mid = map canon w
                           \<and> (suf = [] \<or> \<not> isWordChar (hd suf))))"
proof -
  have w: "w \<noteq> []" "isWordChar (hd w)" "isWordChar (last w)"
    using assms by (simp_all add: wordy_def)
  have key: "atBoundary prev s = (\<not> prev) \<and>
             atBoundary (if w = [] then prev else isWordChar (last (take (length w) s)))
                        (drop (length w) s) = (suf = [] \<or> \<not> isWordChar (hd suf))"
    if ms: "s = mid @ suf" "map canon mid = map canon w" for mid suf
  proof -
    have len: "length mid = length w" using ms(2) by (rule map_eq_imp_length_eq)
    have mid: "mid \<noteq> []" "canon (hd mid) = canon (hd w)" "canon (last mid) = canon (last w)"
      using canon_map_hd_last[OF ms(2) w(1)] by simp_all
    have hw: "isWordChar (hd mid)" "isWordChar (last mid)"
      using mid w canon_eq_isWordChar by blast+
    have td: "take (length w) s = mid" "drop (length w) s = suf"
      using ms(1) len by simp_all
    have "s \<noteq> []" "hd s = hd mid" using ms(1) mid(1) by simp_all
    then show ?thesis using hw td w(1) by (auto simp: atBoundary_def)
  qed
  show ?thesis
  proof
    assume l: "ci_prefix w s \<and> atBoundary prev s \<and>
          atBoundary (if w = [] then prev else isWordChar (last (take (length w) s)))
                     (drop (length w) s)"
    then obtain mid suf where ms: "s = mid @ suf" "map canon mid = map canon w"
      using ci_prefix_iff by blast
    from key[OF ms] l have "\<not> prev" "suf = [] \<or> \<not> isWordChar (hd suf)" by auto
    with ms show "\<not> prev \<and> (\<exists>mid suf. s = mid @ suf \<and> map canon mid = map canon w
                           \<and> (suf = [] \<or> \<not> isWordChar (hd suf)))" by blast
  next
    assume "\<not> prev \<and> (\<exists>mid suf. s = mid @ suf \<and> map canon mid = map canon w
                           \<and> (suf = [] \<or> \<not> isWordChar (hd suf)))"
    then obtain mid suf where np: "\<not> prev" and ms: "s = mid @ suf" "map canon mid = map canon w"
      and e: "suf = [] \<or> \<not> isWordChar (hd suf)" by blast
    have "ci_prefix w s" using ms ci_prefix_iff by blast
    moreover have td: "drop (length w) s = suf"
      using ms map_eq_imp_length_eq[OF ms(2)] by simp
    ultimately show "ci_prefix w s \<and> atBoundary prev s \<and>
          atBoundary (if w = [] then prev else isWordChar (last (take (length w) s)))
                     (drop (length w) s)"
      using key[OF ms] np e by auto
  qed
qed

lemma matchWordHere_iff:
  assumes "\<forall>w\<in>set alts. wordy w"
  shows "matchWordHere alts prev s \<longleftrightarrow>
         (\<exists>w\<in>set alts. \<not> prev \<and> (\<exists>mid suf. s = mid @ suf \<and> map canon mid = map canon w
                           \<and> (suf = [] \<or> \<not> isWordChar (hd suf))))"
proof -
  have "matchWordHere alts prev s \<longleftrightarrow>
        (\<exists>w\<in>set alts. ci_prefix w s \<and> atBoundary prev s \<and>
            atBoundary (if w = [] then prev else isWordChar (last (take (length w) s)))
                       (drop (length w) s))"
    unfolding matchWordHere_def list_ex_iff by blast
  also have "\<dots> \<longleftrightarrow> (\<exists>w\<in>set alts. \<not> prev \<and> (\<exists>mid suf. s = mid @ suf
        \<and> map canon mid = map canon w \<and> (suf = [] \<or> \<not> isWordChar (hd suf))))"
    using assms word_here by (intro bex_cong refl) blast
  finally show ?thesis .
qed

lemma occursAfter_Nil:
  "occursAfter prev [] w \<longleftrightarrow> (\<not> prev \<and> (\<exists>mid suf. [] = mid @ suf \<and> map canon mid = map canon w
                           \<and> (suf = [] \<or> \<not> isWordChar (hd suf))))"
  unfolding occursAfter_def by auto

lemma occursAfter_Cons:
  "occursAfter prev (c # cs) w \<longleftrightarrow>
     (\<not> prev \<and> (\<exists>mid suf. c # cs = mid @ suf \<and> map canon mid = map canon w
                           \<and> (suf = [] \<or> \<not> isWordChar (hd suf))))
     \<or> occursAfter (isWordChar c) cs w"
proof
  assume "occursAfter prev (c # cs) w"
  then obtain pre mid suf where h: "c # cs = pre @ mid @ suf" "map canon mid = map canon w"
    "if pre = [] then \<not> prev else \<not> isWordChar (last pre)" "suf = [] \<or> \<not> isWordChar (hd suf)"
    unfolding occursAfter_def by blast
  show "(\<not> prev \<and> (\<exists>mid suf. c # cs = mid @ suf \<and> map canon mid = map canon w
                           \<and> (suf = [] \<or> \<not> isWordChar (hd suf))))
     \<or> occursAfter (isWordChar c) cs w"
  proof (cases pre)
    case Nil
    with h show ?thesis by auto
  next
    case (Cons a pre')
    with h have "cs = pre' @ mid @ suf" "a = c" by simp_all
    moreover have "if pre' = [] then \<not> isWordChar c else \<not> isWordChar (last pre')"
      using h(3) Cons \<open>a = c\<close> by (auto split: if_splits)
    ultimately have "occursAfter (isWordChar c) cs w"
      unfolding occursAfter_def using h(2,4) by blast
    then show ?thesis ..
  qed
next
  assume "(\<not> prev \<and> (\<exists>mid suf. c # cs = mid @ suf \<and> map canon mid = map canon w
                           \<and> (suf = [] \<or> \<not> isWordChar (hd suf))))
     \<or> occursAfter (isWordChar c) cs w"
  then show "occursAfter prev (c # cs) w"
  proof
    assume "\<not> prev \<and> (\<exists>mid suf. c # cs = mid @ suf \<and> map canon mid = map canon w
                           \<and> (suf = [] \<or> \<not> isWordChar (hd suf)))"
    then obtain mid suf where "\<not> prev" "c # cs = [] @ mid @ suf" "map canon mid = map canon w"
      "suf = [] \<or> \<not> isWordChar (hd suf)" by auto
    then show ?thesis unfolding occursAfter_def by (metis (full_types))
  next
    assume "occursAfter (isWordChar c) cs w"
    then obtain pre mid suf where h: "cs = pre @ mid @ suf" "map canon mid = map canon w"
      "if pre = [] then \<not> isWordChar c else \<not> isWordChar (last pre)"
      "suf = [] \<or> \<not> isWordChar (hd suf)"
      unfolding occursAfter_def by blast
    have "c # cs = (c # pre) @ mid @ suf" using h(1) by simp
    moreover have "if c # pre = [] then \<not> prev else \<not> isWordChar (last (c # pre))"
      using h(3) by (auto split: if_splits)
    ultimately show ?thesis unfolding occursAfter_def using h(2,4) by blast
  qed
qed

lemma testWordsFrom_iff:
  assumes "\<forall>w\<in>set alts. wordy w"
  shows "testWordsFrom alts prev s \<longleftrightarrow> (\<exists>w\<in>set alts. occursAfter prev s w)"
proof (induction s arbitrary: prev)
  case Nil
  show ?case using matchWordHere_iff[OF assms] by (simp add: occursAfter_Nil)
next
  case (Cons c cs)
  show ?case
    using matchWordHere_iff[OF assms] Cons.IH
    by (simp add: occursAfter_Cons) blast
qed

lemma occursAfter_False: "occursAfter False line w = containsWord line w"
  unfolding occursAfter_def containsWord_def by (intro ex_cong1) auto

lemma wordy_patterns:
  "\<forall>w\<in>set URGENT_PATTERN. wordy w" "\<forall>w\<in>set IMPORTANT_PATTERN. wordy w"
  by code_simp+

lemma testWords_patterns:
  "testWords URGENT_PATTERN line \<longleftrightarrow> (\<exists>w\<in>set URGENT_PATTERN. containsWord line w)"
  "testWords IMPORTANT_PATTERN line \<longleftrightarrow> (\<exists>w\<in>set IMPORTANT_PATTERN. containsWord line w)"
  unfolding testWords_def
  by (simp_all add: testWordsFrom_iff wordy_patterns occursAfter_False)

text \<open>
  C3: for every line, the priority is 1 when the line contains one of the urgency words or
  phrases (urgent, asap, as soon as possible, blocker, critical, priority 1, p1) as a whole
  word in any letter case; otherwise 2 when it contains one of the elevated words
  (important, soon, priority 2, p2); otherwise 4. It is never 3 and never outside 1, 2, 4,
  and urgency wins when both groups match.
\<close>

theorem inferPriority_classifies:
  "inferPriority line =
     (if \<exists>w\<in>set (map U [''urgent'', ''asap'', ''as soon as possible'', ''blocker'',
                           ''critical'', ''priority 1'', ''p1'']). containsWord line w then 1
      else if \<exists>w\<in>set (map U [''important'', ''soon'', ''priority 2'', ''p2'']).
                containsWord line w then 2
      else 4)
   \<and> inferPriority line \<in> {1, 2, 4} \<and> inferPriority line \<noteq> 3"
  unfolding inferPriority_def testWords_patterns
  unfolding URGENT_PATTERN_def IMPORTANT_PATTERN_def
  by simp

theorem inferPriority_classifies_witness:
  "containsWord (U ''important and URGENT'') (U ''urgent'')
   \<and> containsWord (U ''important and URGENT'') (U ''important'')
   \<and> inferPriority (U ''important and URGENT'') = 1"
proof -
  have u: "containsWord (U ''important and URGENT'') (U ''urgent'')"
    unfolding containsWord_def
    by (rule exI[of _ "U ''important and ''"], rule exI[of _ "U ''URGENT''"],
        rule exI[of _ "[]"]) (simp add: U_def canon_def isWordChar_def isDigit_def)
  have i: "containsWord (U ''important and URGENT'') (U ''important'')"
    unfolding containsWord_def
    by (rule exI[of _ "[]"], rule exI[of _ "U ''important''"],
        rule exI[of _ "U '' and URGENT''"]) (simp add: U_def canon_def isWordChar_def isDigit_def)
  from u have "\<exists>w\<in>set (map U [''urgent'', ''asap'', ''as soon as possible'', ''blocker'',
                           ''critical'', ''priority 1'', ''p1'']).
                 containsWord (U ''important and URGENT'') w"
    by simp
  with inferPriority_classifies[of "U ''important and URGENT''"]
  have "inferPriority (U ''important and URGENT'') = 1" by presburger
  with u i show ?thesis by simp
qed

section \<open>The due date resolver\<close>

lemma testEod_trim:
  "testEod (trim s) \<longleftrightarrow> containsCI s (U ''eod'') \<or> containsCI s (U ''end of day'')
                          \<or> containsCI s (U ''e.o.d'')"
proof -
  have "containsCI (trim s) (U ''eod'') = containsCI s (U ''eod'')"
    by (rule containsCI_trim) (simp_all add: U_def isSpace_def)
  moreover have "containsCI (trim s) (U ''end of day'') = containsCI s (U ''end of day'')"
    by (rule containsCI_trim) (simp_all add: U_def isSpace_def)
  moreover have "containsCI (trim s) (U ''e.o.d'') = containsCI s (U ''e.o.d'')"
    by (rule containsCI_trim) (simp_all add: U_def isSpace_def)
  ultimately show ?thesis by (simp add: testEod_def ci_includes_iff)
qed

text \<open>
  C4, as amended: for every text on which the date parser finds no match, the resolver
  returns the calendar date of the reference instant when the text contains \<open>eod\<close>,
  \<open>end of day\<close> or \<open>e.o.d\<close> in any letter case (the pattern of the code has no full
  stop after the last letter), and nothing otherwise. Every date it returns is the year,
  the two-digit month and the two-digit day of a \<^verbatim>\<open>Date\<close>, joined by hyphens, and
  does not depend on the time of day.
\<close>

theorem parseDueDate_fallback:
  "(chrono (trim s) ref = [] \<longrightarrow>
      parseDueDate chrono ref (JSString s)
        = (if containsCI s (U ''eod'') \<or> containsCI s (U ''end of day'')
              \<or> containsCI s (U ''e.o.d'')
           then Some (toDateString ref) else None))
   \<and> (parseDueDate chrono ref v = Some r \<longrightarrow> (\<exists>d. r = toDateString d))
   \<and> toDateString d
       = show_int (getFullYear d) @ U ''-'' @ padStart2 (show_nat (getMonth d + 1)) @ U ''-''
         @ padStart2 (show_nat (getDate d))
   \<and> toDateString (d\<lparr> getHours := h, getMinutes := mi, getSeconds := se,
                        getMilliseconds := ms \<rparr>) = toDateString d"
proof -
  have blank: "\<not> testEod []" by code_simp
  have a: "chrono (trim s) ref = [] \<longrightarrow>
      parseDueDate chrono ref (JSString s)
        = (if containsCI s (U ''eod'') \<or> containsCI s (U ''end of day'')
              \<or> containsCI s (U ''e.o.d'')
           then Some (toDateString ref) else None)"
  proof (cases "trim s = []")
    case True
    then have "\<not> testEod (trim s)" using blank by simp
    then show ?thesis using True
      unfolding testEod_trim by (auto simp: parseDueDate_def Let_def)
  next
    case False
    then have "s \<noteq> []" by (auto simp: trim_def)
    with False show ?thesis
      unfolding testEod_trim[symmetric] by (simp add: parseDueDate_def Let_def)
  qed
  have b: "parseDueDate chrono ref v = Some r \<longrightarrow> (\<exists>d. r = toDateString d)"
    by (auto simp: parseDueDate_def Let_def split: jsvalue.splits list.splits if_splits)
  show ?thesis using a b by (simp add: toDateString_def U_def)
qed

theorem parseDueDate_fallback_witness:
  "noMatch (trim (U ''wrap up by EOD'')) june3 = []
   \<and> containsCI (U ''wrap up by EOD'') (U ''eod'')
   \<and> parseDueDate noMatch june3 (JSString (U ''wrap up by EOD'')) = Some (U ''2024-06-03'')"
proof -
  have n: "noMatch (trim (U ''wrap up by EOD'')) june3 = []" by (simp add: noMatch_def)
  have c: "containsCI (U ''wrap up by EOD'') (U ''eod'')"
    unfolding ci_includes_iff[symmetric] by code_simp
  have d: "toDateString june3 = U ''2024-06-03''" by code_simp
  show ?thesis
    using n c d parseDueDate_fallback[of noMatch "U ''wrap up by EOD''" june3]
    by simp
qed

text \<open>
  C4 as stated fails: with the markers \<open>eod\<close>, \<open>end of day\<close> and \<open>e.o.d.\<close> (with its
  final full stop), the text "send report e.o.d" contains no marker, the date parser finds
  nothing, and the resolver still returns the date of the reference instant.
\<close>

theorem parseDueDate_eod_without_full_stop:
  "noMatch (trim (U ''send report e.o.d'')) june3 = []
   \<and> \<not> containsCI (U ''send report e.o.d'') (U ''eod'')
   \<and> \<not> containsCI (U ''send report e.o.d'') (U ''end of day'')
   \<and> \<not> containsCI (U ''send report e.o.d'') (U ''e.o.d.'')
   \<and> parseDueDate noMatch june3 (JSString (U ''send report e.o.d'')) = Some (U ''2024-06-03'')"
  unfolding ci_includes_iff[symmetric] by code_simp

section \<open>The extraction loop in closed form\<close>

lemma noteLines_trimmed: "l \<in> set (noteLines s) \<Longrightarrow> dropWhile isSpace l = l \<and> l \<noteq> []"
  by (auto simp: noteLines_def dropWhile_trim)

lemma collect_no_indent:
  assumes "i < length lines \<longrightarrow> dropWhile isSpace (lines ! i) = lines ! i"
  shows "collect lines i subs descr = (i, subs, descr)"
  using assms by (subst collect.simps) (simp add: Let_def)

lemma extract_loop_itemsFrom:
  assumes tr: "\<forall>l\<in>set lines. dropWhile isSpace l = l"
  shows "extract_loop chrono clock lines i items t
         = items @ itemsFrom chrono clock t (drop i lines)"
proof (induction "length lines - i" arbitrary: i items t)
  case 0
  then have "\<not> i < length lines" by simp
  then show ?case by (subst extract_loop.simps) simp
next
  case (Suc n)
  then have lt: "i < length lines" by simp
  have n: "n = length lines - (i + 1)" using Suc(2) by simp
  have dr: "drop i lines = lines ! i # drop (i + 1) lines"
    using lt by (simp add: Cons_nth_drop_Suc)
  have co: "collect lines (i + 1) [] (lines ! i) = (i + 1, [], lines ! i)"
    using tr by (intro collect_no_indent) simp
  show ?case
  proof (cases "emits (lines ! i)")
    case True
    then have a: "isAction (lines ! i)" "\<not> length (lineContent (lines ! i)) < 2"
      by (simp_all add: emits_def)
    show ?thesis
      using lt a True
      apply (subst extract_loop.simps)
      apply (simp only: Let_def co fst_conv snd_conv if_True if_False)
      apply (subst Suc(1)[OF n])
      apply (simp add: dr)
      done
  next
    case False
    then have "extract_loop chrono clock lines i items t
               = extract_loop chrono clock lines (i + 1) items t"
      using lt by (subst extract_loop.simps) (auto simp: Let_def emits_def)
    with False show ?thesis using Suc(1)[OF n] by (simp add: dr)
  qed
qed

lemma extractActionItems_itemsFrom:
  "extractActionItems chrono clock (JSString s) = itemsFrom chrono clock 0 (noteLines s)"
proof (cases "s = []")
  case True
  have "noteLines [] = []" by (simp add: noteLines_def trim_def)
  with True show ?thesis by (simp add: extractActionItems_def)
next
  case False
  then show ?thesis
    using extract_loop_itemsFrom[of "noteLines s" chrono clock 0 "[]" 0] noteLines_trimmed
    by (simp add: extractActionItems_def)
qed

lemma itemsFrom_text:
  "map itemText (itemsFrom chrono clock t lines) = map lineText (filter emits lines)"
  by (induction lines arbitrary: t) (simp_all add: itemText_def lineText_def)

lemma itemsFrom_subtasks: "it \<in> set (itemsFrom chrono clock t lines) \<Longrightarrow> subtasks it = []"
  by (induction lines arbitrary: t) (auto split: if_splits)

lemma itemsFrom_content:
  "map content (itemsFrom chrono clock t lines) = map (\<lambda>l. take 500 (lineContent l)) (filter emits lines)"
  by (induction lines arbitrary: t) simp_all

lemma itemsFrom_description:
  "map description (itemsFrom chrono clock t lines) = map (take 2000) (filter emits lines)"
  by (induction lines arbitrary: t) simp_all

lemma itemsFrom_line:
  "it \<in> set (itemsFrom chrono clock t lines) \<Longrightarrow>
     \<exists>line\<in>set lines. emits line \<and> content it = take 500 (lineContent line)
        \<and> description it = take 2000 line \<and> subtasks it = []"
  by (induction lines arbitrary: t) (auto split: if_splits)

lemma lineContent_trimmed: "\<exists>x. lineContent line = trim x"
  unfolding lineContent_def Let_def by blast

lemma content_kept:
  assumes "2 \<le> length (lineContent line)"
  shows "trim (take 500 (lineContent line)) \<noteq> []"
proof -
  obtain x where x: "lineContent line = trim x" using lineContent_trimmed by blast
  with assms have ne: "trim x \<noteq> []" by auto
  then have "\<not> isSpace (hd (trim x))" by (rule hd_trim)
  moreover have "take 500 (trim x) \<noteq> []" "hd (take 500 (trim x)) = hd (trim x)"
    using ne by (cases "trim x"; simp)+
  ultimately show ?thesis using x trim_nonempty by simp
qed

lemma parseDueDate_cong:
  assumes "\<And>s. chrono s r = chrono' s r'" "toDateString r = toDateString r'"
  shows "parseDueDate chrono r v = parseDueDate chrono' r' v"
  using assms by (simp add: parseDueDate_def Let_def split: jsvalue.splits list.splits)

lemma itemsFrom_cong:
  assumes "\<And>t s. chrono s (clock t) = chrono' s (clock' t)"
    "\<And>t. toDateString (clock t) = toDateString (clock' t)"
  shows "itemsFrom chrono clock t lines = itemsFrom chrono' clock' t lines"
proof -
  have p: "parseDueDate chrono (clock t) v = parseDueDate chrono' (clock' t) v" for t v
    using assms by (intro parseDueDate_cong)
  have "itemDueDate chrono clock t c l = itemDueDate chrono' clock' t c l" for t c l
    by (simp add: itemDueDate_def p cong: option.case_cong)
  then show ?thesis by (induction lines arbitrary: t) simp_all
qed

text \<open>
  C1: the code at the example of the claim. Every line is trimmed before the loop runs, so
  no line is ever seen as indented: for every input the subtasks of every item are empty,
  and the notes "1. Review PR #42", "   - check tests", "   - check docs" give three items,
  one for each line, where the claim expects one item with two subtasks.
\<close>

theorem extract_review_notes_no_subtasks:
  "map subtasks (extractActionItems chrono clock text)
     = replicate (length (extractActionItems chrono clock text)) []
   \<and> map content (extractActionItems chrono clock (JSString reviewNotes))
     = [U ''Review PR #42'', U ''check tests'', U ''check docs'']
   \<and> map description (extractActionItems chrono clock (JSString reviewNotes))
     = [U ''1. Review PR #42'', U ''- check tests'', U ''- check docs'']"
proof -
  have a: "map subtasks (extractActionItems chrono clock text)
     = replicate (length (extractActionItems chrono clock text)) []"
  proof (cases "text")
    case (JSString s)
    have "\<forall>x\<in>set (map subtasks (itemsFrom chrono clock 0 (noteLines s))). x = []"
      using itemsFrom_subtasks by auto
    then show ?thesis
      unfolding JSString extractActionItems_itemsFrom
      by (metis length_map replicate_length_same)
  qed (simp_all add: extractActionItems_def)
  have b: "map (\<lambda>l. take 500 (lineContent l)) (filter emits (noteLines reviewNotes))
           = [U ''Review PR #42'', U ''check tests'', U ''check docs'']"
    by code_simp
  have c: "map (take 2000) (filter emits (noteLines reviewNotes))
           = [U ''1. Review PR #42'', U ''- check tests'', U ''- check docs'']"
    by code_simp
  show ?thesis
    using a b c by (simp add: extractActionItems_itemsFrom itemsFrom_content itemsFrom_description)
qed

text \<open>
  C2: every item that extraction emits has a content that is not empty after trimming and
  has between 2 and 500 code units, a description of at most 2000 code units and at most
  20 subtasks; its content is the first 500 code units of a stripped content of at least 2
  code units, so no item with a shorter stripped content is ever emitted.
\<close>

theorem extract_item_bounds:
  "\<forall>it \<in> set (extractActionItems chrono clock text).
      trim (content it) \<noteq> [] \<and> 2 \<le> length (content it) \<and> length (content it) \<le> 500
      \<and> length (description it) \<le> 2000 \<and> length (subtasks it) \<le> 20
      \<and> (\<exists>line. content it = take 500 (lineContent line) \<and> 2 \<le> length (lineContent line))"
proof (cases "text")
  case (JSString s)
  show ?thesis
  proof
    fix it assume "it \<in> set (extractActionItems chrono clock text)"
    then have "it \<in> set (itemsFrom chrono clock 0 (noteLines s))"
      by (simp add: JSString extractActionItems_itemsFrom)
    then obtain line where l: "emits line" "content it = take 500 (lineContent line)"
      "description it = take 2000 line" "subtasks it = []"
      using itemsFrom_line by blast
    then have two: "2 \<le> length (lineContent line)" by (simp add: emits_def)
    with l content_kept[OF two] show "trim (content it) \<noteq> [] \<and> 2 \<le> length (content it)
      \<and> length (content it) \<le> 500
      \<and> length (description it) \<le> 2000 \<and> length (subtasks it) \<le> 20
      \<and> (\<exists>line. content it = take 500 (lineContent line) \<and> 2 \<le> length (lineContent line))"
      by auto
  qed
qed (simp_all add: extractActionItems_def)

theorem extract_item_bounds_witness:
  "\<exists>it. it \<in> set (extractActionItems noMatch (clockAt june3) (JSString (U ''- fix the build'')))
      \<and> content it = U ''fix the build''
      \<and> trim (content it) \<noteq> [] \<and> 2 \<le> length (content it) \<and> length (content it) \<le> 500
      \<and> length (description it) \<le> 2000 \<and> length (subtasks it) \<le> 20"
proof -
  let ?it = "\<lparr> content = U ''fix the build'', description = U ''- fix the build'',
               dueDate = None, priority = 4, subtasks = [] \<rparr>"
  have "extractActionItems noMatch (clockAt june3) (JSString (U ''- fix the build'')) = [?it]"
    by code_simp
  then have m: "?it \<in> set (extractActionItems noMatch (clockAt june3)
                              (JSString (U ''- fix the build'')))"
    by simp
  have "trim (content ?it) \<noteq> [] \<and> 2 \<le> length (content ?it) \<and> length (content ?it) \<le> 500
      \<and> length (description ?it) \<le> 2000 \<and> length (subtasks ?it) \<le> 20"
    using extract_item_bounds[of noMatch "clockAt june3" "JSString (U ''- fix the build'')"] m
    by blast
  with m show ?thesis by (intro exI[of _ ?it]) simp
qed













text \<open>
  C9, as amended: two extractions of the same text give items that agree in number and in
  content, description, priority and subtasks, whatever the clock and the date parser do;
  they give the same sequence, due dates included, when the date parser gives the same
  results and the clock readings fall on the same calendar dates in both.
\<close>

theorem extract_text_fields_fixed:
  "map itemText (extractActionItems chrono clock text)
     = map itemText (extractActionItems chrono' clock' text)
   \<and> ((\<forall>t s. chrono s (clock t) = chrono' s (clock' t))
        \<and> (\<forall>t. toDateString (clock t) = toDateString (clock' t))
        \<longrightarrow> extractActionItems chrono clock text = extractActionItems chrono' clock' text)"
proof -
  have "map itemText (extractActionItems chrono clock text)
     = map itemText (extractActionItems chrono' clock' text)"
    by (cases "text") (simp_all add: extractActionItems_itemsFrom itemsFrom_text,
                     simp_all add: extractActionItems_def)
  moreover have "extractActionItems chrono clock text = extractActionItems chrono' clock' text"
    if h: "\<forall>t s. chrono s (clock t) = chrono' s (clock' t)"
      "\<forall>t. toDateString (clock t) = toDateString (clock' t)"
  proof (cases "text")
    case (JSString s)
    show ?thesis
      unfolding JSString extractActionItems_itemsFrom
      using h by (intro itemsFrom_cong) auto
  qed (simp_all add: extractActionItems_def)
  ultimately show ?thesis by blast
qed

theorem extract_text_fields_fixed_witness:
  "(\<forall>t s. noMatch s (clockAt june3 t) = noMatch s (clockAt june3evening t))
   \<and> (\<forall>t. toDateString (clockAt june3 t) = toDateString (clockAt june3evening t))
   \<and> extractActionItems noMatch (clockAt june3) (JSString (U ''- wrap up by EOD''))
     = extractActionItems noMatch (clockAt june3evening) (JSString (U ''- wrap up by EOD''))
   \<and> map itemText (extractActionItems noMatch (clockAt june3) (JSString (U ''- wrap up by EOD'')))
     = map itemText (extractActionItems noMatch (clockAt june4) (JSString (U ''- wrap up by EOD'')))"
proof -
  have a: "\<forall>t s. noMatch s (clockAt june3 t) = noMatch s (clockAt june3evening t)"
    by (simp add: noMatch_def)
  have b: "\<forall>t. toDateString (clockAt june3 t) = toDateString (clockAt june3evening t)"
    by (simp add: clockAt_def toDateString_def june3_def june3evening_def)
  show ?thesis
    using a b
      extract_text_fields_fixed[of noMatch "clockAt june3" "JSString (U ''- wrap up by EOD'')"
                                   noMatch "clockAt june3evening"]
      extract_text_fields_fixed[of noMatch "clockAt june3" "JSString (U ''- wrap up by EOD'')"
                                   noMatch "clockAt june4"]
    by blast
qed

text \<open>
  C9 as stated fails: the same text extracted on 3 June 2024 and on 4 June 2024 gives two
  different sequences, since "EOD" resolves to the date of the call.
\<close>

theorem extract_depends_on_clock:
  "extractActionItems noMatch (clockAt june3) (JSString (U ''- wrap up by EOD''))
   \<noteq> extractActionItems noMatch (clockAt june4) (JSString (U ''- wrap up by EOD''))"
  by code_simp

section \<open>The router\<close>

lemma js_includes_sublist: "js_includes s sub = sublist sub s"
  by (induction s) (simp_all add: sublist_Cons_right)

lemma find_first:
  "find P xs = Some x \<longleftrightarrow>
     (\<exists>before after. xs = before @ x # after \<and> P x \<and> (\<forall>y\<in>set before. \<not> P y))"
proof (induction xs)
  case Nil
  show ?case by simp
next
  case (Cons a xs)
  show ?case
  proof (cases "P a")
    case True
    have "(\<exists>before after. a # xs = before @ x # after \<and> P x \<and> (\<forall>y\<in>set before. \<not> P y))
          \<longleftrightarrow> a = x"
    proof
      assume "\<exists>before after. a # xs = before @ x # after \<and> P x \<and> (\<forall>y\<in>set before. \<not> P y)"
      then obtain before after where h: "a # xs = before @ x # after" "\<forall>y\<in>set before. \<not> P y"
        by blast
      show "a = x"
      proof (cases before)
        case Nil
        with h show ?thesis by simp
      next
        case (Cons b bs)
        with h True show ?thesis by auto
      qed
    next
      assume "a = x"
      then have "a # xs = [] @ x # xs \<and> P x \<and> (\<forall>y\<in>set []. \<not> P y)" using True by simp
      then show "\<exists>before after. a # xs = before @ x # after \<and> P x \<and> (\<forall>y\<in>set before. \<not> P y)"
        by blast
    qed
    with True show ?thesis by simp
  next
    case False
    have "(\<exists>before after. a # xs = before @ x # after \<and> P x \<and> (\<forall>y\<in>set before. \<not> P y))
          \<longleftrightarrow> (\<exists>before after. xs = before @ x # after \<and> P x \<and> (\<forall>y\<in>set before. \<not> P y))"
    proof
      assume "\<exists>before after. a # xs = before @ x # after \<and> P x \<and> (\<forall>y\<in>set before. \<not> P y)"
      then obtain before after where h: "a # xs = before @ x # after" "P x"
        "\<forall>y\<in>set before. \<not> P y" by blast
      show "\<exists>before after. xs = before @ x # after \<and> P x \<and> (\<forall>y\<in>set before. \<not> P y)"
      proof (cases before)
        case Nil
        with h False show ?thesis by simp
      next
        case (Cons b bs)
        with h have "xs = bs @ x # after" "\<forall>y\<in>set bs. \<not> P y" by simp_all
        with h(2) show ?thesis by blast
      qed
    next
      assume "\<exists>before after. xs = before @ x # after \<and> P x \<and> (\<forall>y\<in>set before. \<not> P y)"
      then obtain before after where h: "xs = before @ x # after" "P x"
        "\<forall>y\<in>set before. \<not> P y" by blast
      then have "a # xs = (a # before) @ x # after" "\<forall>y\<in>set (a # before). \<not> P y"
        using False by simp_all
      with h(2) show "\<exists>before after. a # xs = before @ x # after \<and> P x
                        \<and> (\<forall>y\<in>set before. \<not> P y)" by blast
    qed
    with False Cons show ?thesis by simp
  qed
qed

lemma find_member: "find P xs = Some x \<Longrightarrow> x \<in> set xs \<and> P x"
  by (induction xs) (auto split: if_splits)

lemma matchSection_find:
  "matchSection lc nc words secs
     = map_option section_id (find (sectionMatches lc nc words) secs)"
  by (induction secs)
     (auto simp: Let_def sectionMatches_def js_includes_sublist list_ex_iff)

lemma matchSection_member:
  "matchSection lc nc words secs = Some sid \<Longrightarrow> \<exists>s\<in>set secs. section_id s = sid"
  unfolding matchSection_find using find_member by fastforce

lemma routeTask_unfold:
  "routeTask lc taskContent projects hint =
     (case hintStage lc (trim (lc taskContent)) (contentWords lc taskContent) projects hint of
        Some r \<Rightarrow> r
      | None \<Rightarrow>
          (let best = patternStage lc (trim (lc taskContent)) (contentWords lc taskContent)
                        projects
                        (keywordStage lc (trim (lc taskContent)) (contentWords lc taskContent)
                           projects)
           in if best_projectId best \<noteq> []
              then \<lparr> projectId = best_projectId best, sectionId = best_sectionId best \<rparr>
              else fallback lc projects))"
  by (simp only: routeTask_def contentWords_def Let_def)

lemma hintStage_first:
  assumes "trim hint \<noteq> []" "projects = before @ p # after" "hintMatches lc hint p"
    "\<forall>q\<in>set before. \<not> hintMatches lc hint q"
  shows "hintStage lc nc words projects (Some hint)
         = Some \<lparr> projectId = project_id p,
                  sectionId = matchSection lc nc words (sections p) \<rparr>"
proof -
  have ne: "hint \<noteq> []" using assms(1) by (auto simp: trim_def)
  have "find (\<lambda>p. js_includes (lc (project_name p)) (lc (trim hint))
                  \<or> js_includes (lc (trim hint)) (lc (project_name p))) projects = Some p"
    unfolding find_first js_includes_sublist
    using assms(2,3,4) unfolding hintMatches_def by blast
  then show ?thesis using ne assms(1) by (simp add: hintStage_def Let_def)
qed

text \<open>
  C5: for every non-blank hint and every list of projects, when some project matches the
  hint (the trimmed hint contains its name or its name contains the trimmed hint, in lower
  case), routing returns the first such project of the list together with the first of its
  sections that matches the content, or no section when none does, whatever the keyword and
  pattern stages would have chosen. The example of the claim, "Review PR #42" with the hint
  "Engineering", is proved after it.
\<close>

theorem route_by_hint:
  assumes "trim hint \<noteq> []"
    and "projects = before @ p # after"
    and "hintMatches lc hint p"
    and "\<forall>q\<in>set before. \<not> hintMatches lc hint q"
  shows "routeTask lc taskContent projects (Some hint)
         = \<lparr> projectId = project_id p,
             sectionId = map_option section_id
               (find (sectionMatches lc (trim (lc taskContent)) (contentWords lc taskContent))
                     (sections p)) \<rparr>"
  unfolding routeTask_unfold hintStage_first[OF assms] matchSection_find by simp

theorem route_by_hint_witness:
  "trim (U ''Engineering'') \<noteq> []
   \<and> hintMatches asciiLower (U ''Engineering'') engineering
   \<and> routeTask asciiLower (U ''Review PR #42'') [engineering, finance] (Some (U ''Engineering''))
     = \<lparr> projectId = project_id engineering, sectionId = Some (U ''s-review'') \<rparr>"
proof -
  have t: "trim (U ''Engineering'') \<noteq> []" by code_simp
  have m: "hintMatches asciiLower (U ''Engineering'') engineering" by code_simp
  have s: "map_option section_id
             (find (sectionMatches asciiLower (trim (asciiLower (U ''Review PR #42'')))
                      (contentWords asciiLower (U ''Review PR #42'')))
                   (sections engineering)) = Some (U ''s-review'')"
    by code_simp
  have "routeTask asciiLower (U ''Review PR #42'') [engineering, finance]
          (Some (U ''Engineering''))
        = \<lparr> projectId = project_id engineering, sectionId = Some (U ''s-review'') \<rparr>"
    using t m s
      route_by_hint[where hint="U ''Engineering''" and projects="[engineering, finance]"
          and before="[]" and p=engineering and after="[finance]" and lc=asciiLower
          and taskContent="U ''Review PR #42''"]
    by simp
  with t m show ?thesis by simp
qed





















lemma fallback_inbox:
  assumes "projects = before @ p # after" "inboxLike lc p" "\<forall>q\<in>set before. \<not> inboxLike lc q"
  shows "fallback lc projects = \<lparr> projectId = project_id p, sectionId = None \<rparr>"
proof -
  have "find (\<lambda>p. lc (project_name p) = U ''inbox''
                  \<or> js_includes (lc (project_name p)) (U ''inbox'')) projects = Some p"
    unfolding find_first js_includes_sublist
    using assms unfolding inboxLike_def by blast
  then show ?thesis by (simp add: fallback_def)
qed

lemma fallback_first:
  assumes "\<forall>q\<in>set (p0 # rest). \<not> inboxLike lc q"
  shows "fallback lc (p0 # rest) = \<lparr> projectId = project_id p0, sectionId = None \<rparr>"
proof -
  have "find (\<lambda>p. lc (project_name p) = U ''inbox''
                  \<or> js_includes (lc (project_name p)) (U ''inbox'')) (p0 # rest) = None"
    unfolding find_None_iff js_includes_sublist
    using assms unfolding inboxLike_def by blast
  then show ?thesis by (simp add: fallback_def)
qed

lemma route_no_stage:
  "noStageSelects lc taskContent projects hint
     \<Longrightarrow> routeTask lc taskContent projects hint = fallback lc projects"
  unfolding routeTask_unfold noStageSelects_def by (simp add: Let_def)

lemma patternStep_no_projects: "patternStep lc nc words [] best rule = best"
  by (simp add: patternStep_def Let_def)

lemma patternStage_no_projects: "patternStage lc nc words [] best = best"
proof -
  have "foldl (patternStep lc nc words []) best rules = best" for rules
    by (induction rules) (simp_all add: patternStep_no_projects)
  then show ?thesis by (simp add: patternStage_def)
qed

lemma route_no_projects:
  "routeTask lc taskContent [] hint = \<lparr> projectId = [], sectionId = None \<rparr>"
proof -
  have "hintStage lc nc words [] hint = None" for nc words
    by (simp add: hintStage_def Let_def split: option.splits)
  moreover have "keywordStage lc nc words [] = initialBest" for nc words
    by (simp add: keywordStage_def)
  ultimately show ?thesis
    unfolding routeTask_unfold
    by (simp add: patternStage_no_projects initialBest_def fallback_def)
qed

text \<open>
  C7: when no stage selects a project, routing returns the first project of the list whose
  lower-case name is or contains "inbox", with no section; when there is no such project
  it returns the first project of the list, with no section; and with an empty list of
  projects it returns the empty project id and no section, for every content and hint.
  The model is a total function, so nothing is raised.
\<close>

theorem route_fallback:
  "(noStageSelects lc taskContent projects hint \<and> projects = before @ p # after
      \<and> inboxLike lc p \<and> (\<forall>q\<in>set before. \<not> inboxLike lc q)
    \<longrightarrow> routeTask lc taskContent projects hint
        = \<lparr> projectId = project_id p, sectionId = None \<rparr>)
   \<and> (noStageSelects lc taskContent (p0 # rest) hint
       \<and> (\<forall>q\<in>set (p0 # rest). \<not> inboxLike lc q)
    \<longrightarrow> routeTask lc taskContent (p0 # rest) hint
        = \<lparr> projectId = project_id p0, sectionId = None \<rparr>)
   \<and> routeTask lc taskContent [] hint = \<lparr> projectId = [], sectionId = None \<rparr>"
proof (intro conjI impI)
  assume "noStageSelects lc taskContent projects hint \<and> projects = before @ p # after
      \<and> inboxLike lc p \<and> (\<forall>q\<in>set before. \<not> inboxLike lc q)"
  then show "routeTask lc taskContent projects hint
        = \<lparr> projectId = project_id p, sectionId = None \<rparr>"
    using route_no_stage fallback_inbox by metis
next
  assume "noStageSelects lc taskContent (p0 # rest) hint
       \<and> (\<forall>q\<in>set (p0 # rest). \<not> inboxLike lc q)"
  then show "routeTask lc taskContent (p0 # rest) hint
        = \<lparr> projectId = project_id p0, sectionId = None \<rparr>"
    using route_no_stage fallback_first by metis
next
  show "routeTask lc taskContent [] hint = \<lparr> projectId = [], sectionId = None \<rparr>"
    by (rule route_no_projects)
qed

theorem route_fallback_witness:
  "noStageSelects asciiLower waterPlants [finance, inbox] None
   \<and> inboxLike asciiLower inbox \<and> \<not> inboxLike asciiLower finance
   \<and> routeTask asciiLower waterPlants [finance, inbox] None
     = \<lparr> projectId = project_id inbox, sectionId = None \<rparr>
   \<and> noStageSelects asciiLower waterPlants [finance, engineering] None
   \<and> \<not> inboxLike asciiLower engineering
   \<and> routeTask asciiLower waterPlants [finance, engineering] None
     = \<lparr> projectId = project_id finance, sectionId = None \<rparr>"
proof -
  have n1: "noStageSelects asciiLower waterPlants [finance, inbox] None" by code_simp
  have n2: "noStageSelects asciiLower waterPlants [finance, engineering] None" by code_simp
  have i: "inboxLike asciiLower inbox" by code_simp
  have f: "\<not> inboxLike asciiLower finance" by code_simp
  have e: "\<not> inboxLike asciiLower engineering" by code_simp
  have r1: "routeTask asciiLower waterPlants [finance, inbox] None
     = \<lparr> projectId = project_id inbox, sectionId = None \<rparr>"
    using n1 i f
      route_fallback[where lc=asciiLower and taskContent=waterPlants
        and projects="[finance, inbox]" and hint=None and before="[finance]" and p=inbox
        and after="[]"]
    by simp
  have r2: "routeTask asciiLower waterPlants [finance, engineering] None
     = \<lparr> projectId = project_id finance, sectionId = None \<rparr>"
    using n2 f e
      route_fallback[where lc=asciiLower and taskContent=waterPlants
        and hint=None and ?p0.0=finance and rest="[engineering]"]
    by simp
  show ?thesis using n1 n2 i f e r1 r2 by (intro conjI)
qed

lemma hintStage_consistent:
  "hintStage lc nc words projects hint = Some r
     \<Longrightarrow> fromProjects projects (projectId r) (sectionId r)"
  unfolding hintStage_def Let_def fromProjects_def
  by (auto split: option.splits if_splits dest!: find_member matchSection_member)

lemma keywordStep_consistent:
  assumes "b = initialBest \<or> fromProjects projects (best_projectId b) (best_sectionId b)"
    "project \<in> set projects"
  shows "keywordStep lc nc words b project = initialBest
         \<or> fromProjects projects (best_projectId (keywordStep lc nc words b project))
              (best_sectionId (keywordStep lc nc words b project))"
proof (cases "keywordStep lc nc words b project = b")
  case True
  with assms(1) show ?thesis by simp
next
  case False
  then have "best_projectId (keywordStep lc nc words b project) = project_id project"
    "best_sectionId (keywordStep lc nc words b project)
       = matchSection lc nc words (sections project)"
    by (auto simp: keywordStep_def Let_def split: if_splits)
  then show ?thesis
    using assms(2) matchSection_member unfolding fromProjects_def by fastforce
qed

lemma keywordStage_consistent:
  "keywordStage lc nc words projects = initialBest
   \<or> fromProjects projects (best_projectId (keywordStage lc nc words projects))
        (best_sectionId (keywordStage lc nc words projects))"
proof -
  have "foldl (keywordStep lc nc words) b ps = initialBest
        \<or> fromProjects projects (best_projectId (foldl (keywordStep lc nc words) b ps))
             (best_sectionId (foldl (keywordStep lc nc words) b ps))"
    if "b = initialBest \<or> fromProjects projects (best_projectId b) (best_sectionId b)"
      "set ps \<subseteq> set projects" for b ps
    using that
  proof (induction ps arbitrary: b)
    case Nil
    then show ?case by simp
  next
    case (Cons q ps)
    have "keywordStep lc nc words b q = initialBest
         \<or> fromProjects projects (best_projectId (keywordStep lc nc words b q))
              (best_sectionId (keywordStep lc nc words b q))"
      using Cons.prems by (intro keywordStep_consistent) auto
    then show ?case using Cons.IH Cons.prems(2) by simp
  qed
  then show ?thesis unfolding keywordStage_def by blast
qed

lemma patternStep_consistent:
  assumes "b = initialBest \<or> fromProjects projects (best_projectId b) (best_sectionId b)"
  shows "patternStep lc nc words projects b rule = initialBest
         \<or> fromProjects projects (best_projectId (patternStep lc nc words projects b rule))
              (best_sectionId (patternStep lc nc words projects b rule))"
proof (cases "patternStep lc nc words projects b rule = b")
  case True
  with assms show ?thesis by simp
next
  case False
  then obtain p where "find (\<lambda>p. js_includes (lc (project_name p)) (snd rule)) projects = Some p"
    "best_projectId (patternStep lc nc words projects b rule) = project_id p"
    "best_sectionId (patternStep lc nc words projects b rule)
       = matchSection lc nc words (sections p)"
    by (auto simp: patternStep_def Let_def split: if_splits option.splits)
  then show ?thesis
    using find_member matchSection_member unfolding fromProjects_def by fastforce
qed

lemma patternStage_consistent:
  assumes "b = initialBest \<or> fromProjects projects (best_projectId b) (best_sectionId b)"
  shows "patternStage lc nc words projects b = initialBest
         \<or> fromProjects projects (best_projectId (patternStage lc nc words projects b))
              (best_sectionId (patternStage lc nc words projects b))"
proof -
  have "foldl (patternStep lc nc words projects) b rules = initialBest
        \<or> fromProjects projects
             (best_projectId (foldl (patternStep lc nc words projects) b rules))
             (best_sectionId (foldl (patternStep lc nc words projects) b rules))"
    if "b = initialBest \<or> fromProjects projects (best_projectId b) (best_sectionId b)"
    for b rules
    using that
  proof (induction rules arbitrary: b)
    case Nil
    then show ?case by simp
  next
    case (Cons r rules)
    have "patternStep lc nc words projects b r = initialBest
         \<or> fromProjects projects (best_projectId (patternStep lc nc words projects b r))
              (best_sectionId (patternStep lc nc words projects b r))"
      using Cons.prems by (rule patternStep_consistent)
    then show ?case using Cons.IH by simp
  qed
  with assms show ?thesis unfolding patternStage_def by blast
qed

lemma fallback_consistent:
  "sectionId (fallback lc projects) = None
   \<and> (projectId (fallback lc projects) \<noteq> []
        \<longrightarrow> (\<exists>p\<in>set projects. project_id p = projectId (fallback lc projects)))"
  unfolding fallback_def
  by (auto split: option.splits list.splits dest!: find_member)

text \<open>
  C10: for every content, hint and list of projects, when the result of routing has a
  project id that is not empty, or has a section id, then some project of the list has that
  project id and the section id, when there is one, is the id of one of the sections of
  that same project.
\<close>

theorem route_result_consistent:
  "projectId (routeTask lc taskContent projects hint) \<noteq> []
     \<or> sectionId (routeTask lc taskContent projects hint) \<noteq> None
   \<longrightarrow> (\<exists>p\<in>set projects.
          project_id p = projectId (routeTask lc taskContent projects hint)
          \<and> (\<forall>sid. sectionId (routeTask lc taskContent projects hint) = Some sid
                \<longrightarrow> (\<exists>s\<in>set (sections p). section_id s = sid)))"
proof -
  let ?nc = "trim (lc taskContent)" and ?words = "contentWords lc taskContent"
  let ?best = "patternStage lc ?nc ?words projects (keywordStage lc ?nc ?words projects)"
  let ?r = "routeTask lc taskContent projects hint"
  have goal: "fromProjects projects (projectId ?r) (sectionId ?r)"
    if nonempty: "projectId ?r \<noteq> [] \<or> sectionId ?r \<noteq> None"
  proof (cases "hintStage lc ?nc ?words projects hint")
    case (Some r)
    then have "?r = r" unfolding routeTask_unfold by simp
    with Some hintStage_consistent show ?thesis by blast
  next
    case None
    show ?thesis
    proof (cases "best_projectId ?best = []")
      case True
      with None have "?r = fallback lc projects"
        unfolding routeTask_unfold by (simp add: Let_def)
      with nonempty fallback_consistent[of lc projects] show ?thesis
        unfolding fromProjects_def by auto
    next
      case False
      with None have r: "projectId ?r = best_projectId ?best" "sectionId ?r = best_sectionId ?best"
        unfolding routeTask_unfold by (simp_all add: Let_def)
      have "?best \<noteq> initialBest" using False by (auto simp: initialBest_def)
      then have "fromProjects projects (best_projectId ?best) (best_sectionId ?best)"
        using patternStage_consistent[OF keywordStage_consistent] by blast
      with r show ?thesis by simp
    qed
  qed
  then show ?thesis unfolding fromProjects_def by blast
qed

theorem route_result_consistent_witness:
  "projectId (routeTask asciiLower (U ''Review PR #42'') [engineering, finance] None) \<noteq> []
   \<and> sectionId (routeTask asciiLower (U ''Review PR #42'') [engineering, finance] None)
       = Some (U ''s-review'')
   \<and> (\<exists>p\<in>set [engineering, finance].
          project_id p = projectId (routeTask asciiLower (U ''Review PR #42'')
                                      [engineering, finance] None)
          \<and> (\<forall>sid. sectionId (routeTask asciiLower (U ''Review PR #42'')
                                 [engineering, finance] None) = Some sid
                \<longrightarrow> (\<exists>s\<in>set (sections p). section_id s = sid)))"
proof -
  have a: "projectId (routeTask asciiLower (U ''Review PR #42'') [engineering, finance] None)
           \<noteq> []"
    by code_simp
  have b: "sectionId (routeTask asciiLower (U ''Review PR #42'') [engineering, finance] None)
           = Some (U ''s-review'')"
    by code_simp
  show ?thesis
    using a b route_result_consistent[of asciiLower "U ''Review PR #42''"
                 "[engineering, finance]" None]
    by blast
qed

end
